theory Spec2Isabelle
  imports Main
begin

section \<open>Python strings\<close>

text \<open>
  A Python \<^verbatim>\<open>str\<close> is a sequence of Unicode code points; \<^verbatim>\<open>len\<close> counts code
  points and indexing yields one-character strings. A character is modelled by its code
  point (\<^verbatim>\<open>ord\<close>), a string by the list of its code points. \<open>str\<close> reads an ASCII
  literal as such a string.
\<close>

type_synonym codepoint = nat
type_synonym pystr = "codepoint list"

definition str :: "string \<Rightarrow> pystr" where
  "str s = map of_char s"

definition tilde :: codepoint where
  "tilde = 126"

definition space :: codepoint where
  "space = 32"

definition underscore :: codepoint where
  "underscore = 95"

text \<open>\<^verbatim>\<open>s.startswith(p)\<close>: \<open>p\<close> is an initial segment of \<open>s\<close>.\<close>

fun startswith :: "pystr \<Rightarrow> pystr \<Rightarrow> bool" where
  "startswith s [] = True"
| "startswith [] (p # ps) = False"
| "startswith (c # cs) (p # ps) = (c = p \<and> startswith cs ps)"

section \<open>The character class \<^verbatim>\<open>\w\<close>\<close>

text \<open>
  Both \<^verbatim>\<open>re.findall(r'\w', text)\<close> and \<^verbatim>\<open>re.sub(r'\w', replacer, text)\<close> use a
  \<^verbatim>\<open>str\<close> pattern without flags. In Python 3 such a pattern is a Unicode pattern:
  \<^verbatim>\<open>\w\<close> matches every character for which \<^verbatim>\<open>str.isalnum()\<close> holds, and the
  underscore. \<^verbatim>\<open>str.isalnum\<close> is a table of the Unicode character database, which is
  not part of the repository. On the code points below 256 (ASCII and the Latin-1
  supplement) the table is written out in \<open>latin1_isalnum\<close>; above them it is the
  parameter \<open>ucd\<close> of the model.

  \<open>ascii_word\<close> is the class \<^verbatim>\<open>[A-Za-z0-9_]\<close>.
\<close>

definition latin1_isalnum :: "codepoint \<Rightarrow> bool" where
  "latin1_isalnum c =
     ((48 \<le> c \<and> c \<le> 57) \<or> (65 \<le> c \<and> c \<le> 90) \<or> (97 \<le> c \<and> c \<le> 122) \<or>
      c = 170 \<or> c = 178 \<or> c = 179 \<or> c = 181 \<or> c = 185 \<or> c = 186 \<or>
      (188 \<le> c \<and> c \<le> 190) \<or> (192 \<le> c \<and> c \<le> 214) \<or>
      (216 \<le> c \<and> c \<le> 246) \<or> (248 \<le> c \<and> c \<le> 255))"

definition str_isalnum :: "(codepoint \<Rightarrow> bool) \<Rightarrow> codepoint \<Rightarrow> bool" where
  "str_isalnum ucd c = (if c < 256 then latin1_isalnum c else ucd c)"

definition is_word :: "(codepoint \<Rightarrow> bool) \<Rightarrow> codepoint \<Rightarrow> bool" where
  "is_word ucd c = (str_isalnum ucd c \<or> c = underscore)"

definition ascii_word :: "codepoint \<Rightarrow> bool" where
  "ascii_word c =
     ((65 \<le> c \<and> c \<le> 90) \<or> (97 \<le> c \<and> c \<le> 122) \<or> (48 \<le> c \<and> c \<le> 57) \<or>
      c = underscore)"

section \<open>Colour-Pattern-Generator.py\<close>

subsection \<open>\<^verbatim>\<open>ensure_tilde_prefix\<close>\<close>

text \<open>
  The loop appends one string to \<^verbatim>\<open>tilde_prefixes\<close> for every element of
  \<^verbatim>\<open>prefixes\<close>; the accumulator of \<open>tilde_loop\<close> is that list.
\<close>

fun tilde_loop :: "pystr list \<Rightarrow> pystr list \<Rightarrow> pystr list" where
  "tilde_loop tilde_prefixes [] = tilde_prefixes"
| "tilde_loop tilde_prefixes (prefix # prefixes) =
     (if \<not> startswith prefix [tilde]
      then tilde_loop (tilde_prefixes @ [tilde # prefix]) prefixes
      else tilde_loop (tilde_prefixes @ [prefix]) prefixes)"

definition ensure_tilde_prefix :: "pystr list \<Rightarrow> pystr list" where
  "ensure_tilde_prefix prefixes = tilde_loop [] prefixes"

subsection \<open>\<^verbatim>\<open>add_prefixes_to_letters\<close>\<close>

text \<open>
  \<^verbatim>\<open>re.findall(r'\w', text)\<close> is the list of the matches, one per word character.
\<close>

definition findall_w :: "(codepoint \<Rightarrow> bool) \<Rightarrow> pystr \<Rightarrow> codepoint list" where
  "findall_w ucd text = filter (is_word ucd) text"

text \<open>
  \<^verbatim>\<open>prefix_iter\<close> is an iterator over a list: its state is the list of the items not
  yet taken. \<^verbatim>\<open>replacer\<close> takes the next item and returns it with the matched
  character appended; on an empty iterator \<^verbatim>\<open>next\<close> raises \<^verbatim>\<open>StopIteration\<close> and the
  handler returns the matched character alone. The model returns the replacement and the
  new state of the iterator.
\<close>

fun replacer :: "pystr list \<Rightarrow> codepoint \<Rightarrow> pystr \<times> pystr list" where
  "replacer [] c = ([c], [])"
| "replacer (p # prefix_iter) c = (p @ [c], prefix_iter)"

text \<open>
  \<^verbatim>\<open>re.sub(r'\w', replacer, text)\<close> scans the text from the left. The pattern matches
  exactly one character, so every word character is one match, replaced by what
  \<^verbatim>\<open>replacer\<close> returns for it; every other character is copied.
\<close>

fun re_sub_w :: "(codepoint \<Rightarrow> bool) \<Rightarrow> pystr list \<Rightarrow> pystr \<Rightarrow> pystr" where
  "re_sub_w ucd prefix_iter [] = []"
| "re_sub_w ucd prefix_iter (c # cs) =
     (if is_word ucd c
      then (case replacer prefix_iter c of
              (r, prefix_iter') \<Rightarrow> r @ re_sub_w ucd prefix_iter' cs)
      else c # re_sub_w ucd prefix_iter cs)"

text \<open>
  \<^verbatim>\<open>tilde_prefixes * repetitions_needed\<close> is the list repeated that many times. The
  divisor \<^verbatim>\<open>len(tilde_prefixes)\<close> is not zero when the division is reached
  (\<open>ensure_tilde_prefix_not_Nil\<close> below), so \<^verbatim>\<open>//\<close> is \<open>div\<close> on natural numbers.
\<close>

definition repetitions_needed :: "(codepoint \<Rightarrow> bool) \<Rightarrow> pystr \<Rightarrow> pystr list \<Rightarrow> nat" where
  "repetitions_needed ucd text prefixes =
     length (findall_w ucd text) div length (ensure_tilde_prefix prefixes) + 1"

definition extended_prefixes :: "(codepoint \<Rightarrow> bool) \<Rightarrow> pystr \<Rightarrow> pystr list \<Rightarrow> pystr list" where
  "extended_prefixes ucd text prefixes =
     concat (replicate (repetitions_needed ucd text prefixes) (ensure_tilde_prefix prefixes))"

definition add_prefixes_to_letters :: "(codepoint \<Rightarrow> bool) \<Rightarrow> pystr \<Rightarrow> pystr list \<Rightarrow> pystr" where
  "add_prefixes_to_letters ucd text prefixes =
     (if text = [] \<or> prefixes = [] then text
      else re_sub_w ucd (extended_prefixes ucd text prefixes) text)"

subsection \<open>The scan, piece by piece\<close>

text \<open>
  The result of \<^verbatim>\<open>re.sub\<close> is the concatenation of one piece per character of the text:
  a marker taken from the iterator followed by the character, the character alone after
  \<^verbatim>\<open>StopIteration\<close>, or a copied character. \<open>scan\<close> is \<open>re_sub_w\<close> returning the
  pieces instead of their concatenation.
\<close>

datatype piece = Prefixed pystr codepoint | Fallback codepoint | Copied codepoint

fun render :: "piece \<Rightarrow> pystr" where
  "render (Prefixed p c) = p @ [c]"
| "render (Fallback c) = [c]"
| "render (Copied c) = [c]"

fun original :: "piece \<Rightarrow> codepoint" where
  "original (Prefixed p c) = c"
| "original (Fallback c) = c"
| "original (Copied c) = c"

fun inserted :: "piece \<Rightarrow> pystr list" where
  "inserted (Prefixed p c) = [p]"
| "inserted (Fallback c) = []"
| "inserted (Copied c) = []"

fun is_fallback :: "piece \<Rightarrow> bool" where
  "is_fallback (Fallback c) = True"
| "is_fallback (Prefixed p c) = False"
| "is_fallback (Copied c) = False"

fun is_prefixed :: "piece \<Rightarrow> bool" where
  "is_prefixed (Prefixed p c) = True"
| "is_prefixed (Fallback c) = False"
| "is_prefixed (Copied c) = False"

fun scan :: "(codepoint \<Rightarrow> bool) \<Rightarrow> pystr list \<Rightarrow> pystr \<Rightarrow> piece list" where
  "scan ucd prefix_iter [] = []"
| "scan ucd prefix_iter (c # cs) =
     (if is_word ucd c
      then (case prefix_iter of
              [] \<Rightarrow> Fallback c # scan ucd [] cs
            | p # prefix_iter' \<Rightarrow> Prefixed p c # scan ucd prefix_iter' cs)
      else Copied c # scan ucd prefix_iter cs)"

definition pieces :: "(codepoint \<Rightarrow> bool) \<Rightarrow> pystr \<Rightarrow> pystr list \<Rightarrow> piece list" where
  "pieces ucd text prefixes =
     (if text = [] \<or> prefixes = [] then map Copied text
      else scan ucd (extended_prefixes ucd text prefixes) text)"

definition markers_consumed :: "(codepoint \<Rightarrow> bool) \<Rightarrow> pystr \<Rightarrow> pystr list \<Rightarrow> pystr list" where
  "markers_consumed ucd text prefixes = concat (map inserted (pieces ucd text prefixes))"

subsection \<open>Removing the markers from the result\<close>




section \<open>EOM_DYEING.py\<close>

text \<open>
  \<^verbatim>\<open>textf[start::step]\<close> with a positive step: the elements at the indices
  \<open>start\<close>, \<open>start + step\<close>, ... below the length. \<open>every step\<close> keeps the first
  element of a list and every \<open>step\<close>-th one after it.
\<close>

fun every :: "nat \<Rightarrow> 'a list \<Rightarrow> 'a list" where
  "every step [] = []"
| "every step (x # xs) = x # every step (drop (step - 1) xs)"

definition slice_from :: "nat \<Rightarrow> nat \<Rightarrow> 'a list \<Rightarrow> 'a list" where
  "slice_from start step xs = every step (drop start xs)"

text \<open>
  The colouring loops: \<^verbatim>\<open>for i in p: if i == " ": pc.append(i) else: pc.append(c + i)\<close>.
  An element of \<^verbatim>\<open>list(text)\<close> is a one-character string, here its code point \<open>i\<close>;
  \<open>pc\<close> is the list built so far.
\<close>

fun colour_loop :: "pystr \<Rightarrow> pystr list \<Rightarrow> codepoint list \<Rightarrow> pystr list" where
  "colour_loop c pc [] = pc"
| "colour_loop c pc (i # p) =
     (if i = space then colour_loop c (pc @ [[i]]) p
      else colour_loop c (pc @ [c @ [i]]) p)"

text \<open>
  \<^verbatim>\<open>itertools.zip_longest\<close> yields tuples until every argument is exhausted; the
  place of an exhausted argument holds \<^verbatim>\<open>None\<close>.
\<close>

definition head :: "'a list \<Rightarrow> 'a option" where
  "head xs = (case xs of [] \<Rightarrow> None | x # _ \<Rightarrow> Some x)"

function zip_longest2 :: "'a list \<Rightarrow> 'a list \<Rightarrow> ('a option \<times> 'a option) list" where
  "zip_longest2 a b =
     (if a = [] \<and> b = [] then []
      else (head a, head b) # zip_longest2 (tl a) (tl b))"
  by pat_completeness auto
termination
  by (relation "measure (\<lambda>(a, b). length a + length b)") (auto simp: neq_Nil_conv)

function zip_longest4 ::
  "'a list \<Rightarrow> 'a list \<Rightarrow> 'a list \<Rightarrow> 'a list \<Rightarrow>
   ('a option \<times> 'a option \<times> 'a option \<times> 'a option) list" where
  "zip_longest4 a b c d =
     (if a = [] \<and> b = [] \<and> c = [] \<and> d = [] then []
      else (head a, head b, head c, head d) # zip_longest4 (tl a) (tl b) (tl c) (tl d))"
  by pat_completeness auto
termination
  by (relation "measure (\<lambda>(a, b, c, d). length a + length b + length c + length d)")
    (auto simp: neq_Nil_conv)

text \<open>
  \<^verbatim>\<open>if f: form.append(f)\<close>: \<^verbatim>\<open>None\<close> and the empty string are false, every other
  string is true.
\<close>

definition append_if :: "pystr list \<Rightarrow> pystr option \<Rightarrow> pystr list" where
  "append_if form v =
     (case v of None \<Rightarrow> form | Some s \<Rightarrow> if s \<noteq> [] then form @ [s] else form)"

fun join_loop2 :: "pystr list \<Rightarrow> (pystr option \<times> pystr option) list \<Rightarrow> pystr list" where
  "join_loop2 form [] = form"
| "join_loop2 form ((f, b) # rows) = join_loop2 (append_if (append_if form f) b) rows"

fun join_loop4 ::
  "pystr list \<Rightarrow> (pystr option \<times> pystr option \<times> pystr option \<times> pystr option) list \<Rightarrow>
   pystr list" where
  "join_loop4 form [] = form"
| "join_loop4 form ((a, b, c, d) # rows) =
     join_loop4 (append_if (append_if (append_if (append_if form a) b) c) d) rows"

text \<open>
  \<open>alternating_form\<close> and \<open>triplealternate_form\<close> are the list \<^verbatim>\<open>form\<close> at the end of
  the functions; the functions return \<^verbatim>\<open>"".join(form)\<close>.
\<close>

definition alternating_form :: "pystr \<Rightarrow> pystr \<Rightarrow> pystr \<Rightarrow> pystr list" where
  "alternating_form text c1 c2 =
     (let textf = text;
          p2 = slice_from 1 2 textf;
          p1 = slice_from 0 2 textf;
          p1c = colour_loop c1 [] p1;
          p2c = colour_loop c2 [] p2
      in join_loop2 [] (zip_longest2 p1c p2c))"

definition alternating :: "pystr \<Rightarrow> pystr \<Rightarrow> pystr \<Rightarrow> pystr" where
  "alternating text c1 c2 = concat (alternating_form text c1 c2)"

definition triplealternate_form :: "pystr \<Rightarrow> pystr \<Rightarrow> pystr \<Rightarrow> pystr \<Rightarrow> pystr list" where
  "triplealternate_form text c1 c2 c3 =
     (let textf = text;
          p4 = slice_from 3 4 textf;
          p3 = slice_from 2 4 textf;
          p2 = slice_from 1 4 textf;
          p1 = slice_from 0 4 textf;
          p1c = colour_loop c1 [] p1;
          p2c = colour_loop c2 [] p2;
          p3c = colour_loop c3 [] p3;
          p4c = colour_loop c2 [] p4
      in join_loop4 [] (zip_longest4 p1c p2c p3c p4c))"

definition triplealternate :: "pystr \<Rightarrow> pystr \<Rightarrow> pystr \<Rightarrow> pystr \<Rightarrow> pystr" where
  "triplealternate text c1 c2 c3 = concat (triplealternate_form text c1 c2 c3)"

text \<open>
  What a positional colouring emits for the character \<open>ch\<close> under the colour \<open>c\<close>, and the
  list of these for a text whose first character has index \<open>n\<close>.
\<close>

definition paint :: "pystr \<Rightarrow> codepoint \<Rightarrow> pystr" where
  "paint c ch = (if ch = space then [ch] else c @ [ch])"

fun positional :: "(nat \<Rightarrow> pystr) \<Rightarrow> nat \<Rightarrow> pystr \<Rightarrow> pystr list" where
  "positional colour n [] = []"
| "positional colour n (ch # cs) = paint (colour n) ch # positional colour (Suc n) cs"

text \<open>
  The colours of \<^verbatim>\<open>triplealternate\<close> by position: \<open>c1\<close>, \<open>c2\<close>, \<open>c3\<close>, \<open>c2\<close>,
  repeated.
\<close>

definition cycle4 :: "pystr \<Rightarrow> pystr \<Rightarrow> pystr \<Rightarrow> nat \<Rightarrow> pystr" where
  "cycle4 c1 c2 c3 i =
     (if i mod 4 = 0 then c1 else if i mod 4 = 1 then c2 else if i mod 4 = 2 then c3 else c2)"

section \<open>Normalisation of the markers\<close>

lemma tilde_loop_map:
  "tilde_loop acc prefixes =
     acc @ map (\<lambda>p. if startswith p [tilde] then p else tilde # p) prefixes"
  by (induction prefixes arbitrary: acc) simp_all

lemma ensure_tilde_prefix_map:
  "ensure_tilde_prefix prefixes =
     map (\<lambda>p. if startswith p [tilde] then p else tilde # p) prefixes"
  by (simp add: ensure_tilde_prefix_def tilde_loop_map)

lemma length_ensure_tilde_prefix:
  "length (ensure_tilde_prefix prefixes) = length prefixes"
  by (simp add: ensure_tilde_prefix_map)

lemma ensure_tilde_prefix_not_Nil:
  "prefixes \<noteq> [] \<Longrightarrow> length (ensure_tilde_prefix prefixes) \<noteq> 0"
  by (simp add: length_ensure_tilde_prefix)

lemma startswith_tilde_Cons: "startswith (tilde # p) [tilde]"
  by simp


section \<open>Properties of the scan\<close>

lemma re_sub_w_scan: "re_sub_w ucd it text = concat (map render (scan ucd it text))"
  by (induction "text" arbitrary: it) (auto split: list.splits)

lemma original_scan: "map original (scan ucd it text) = text"
  by (induction "text" arbitrary: it) (auto split: list.splits)

lemma length_scan: "length (scan ucd it text) = length text"
  by (induction "text" arbitrary: it) (auto split: list.splits)

lemma scan_no_fallback:
  "length (findall_w ucd text) \<le> length it \<Longrightarrow> filter is_fallback (scan ucd it text) = []"
  by (induction "text" arbitrary: it) (auto simp: findall_w_def split: list.splits)

lemma scan_inserted:
  "length (findall_w ucd text) \<le> length it \<Longrightarrow>
   concat (map inserted (scan ucd it text)) = take (length (findall_w ucd text)) it"
proof (induction "text" arbitrary: it)
  case Nil
  show ?case by (simp add: findall_w_def)
next
  case (Cons c cs)
  show ?case
  proof (cases "is_word ucd c")
    case True
    with Cons.prems obtain p rest where it: "it = p # rest"
      by (cases it) (simp_all add: findall_w_def)
    with True Cons.prems have "length (findall_w ucd cs) \<le> length rest"
      by (simp add: findall_w_def)
    then have "concat (map inserted (scan ucd rest cs)) = take (length (findall_w ucd cs)) rest"
      by (rule Cons.IH)
    with True it show ?thesis by (simp add: findall_w_def)
  next
    case False
    with Cons.prems have "length (findall_w ucd cs) \<le> length it"
      by (simp add: findall_w_def)
    then have "concat (map inserted (scan ucd it cs)) = take (length (findall_w ucd cs)) it"
      by (rule Cons.IH)
    with False show ?thesis by (simp add: findall_w_def)
  qed
qed

lemma scan_prefixed_iff:
  "length (findall_w ucd text) \<le> length it \<Longrightarrow>
   map is_prefixed (scan ucd it text) = map (is_word ucd) text"
  by (induction "text" arbitrary: it) (auto simp: findall_w_def split: list.splits)

lemma length_render:
  "length (concat (map render ps)) = length ps + sum_list (map length (concat (map inserted ps)))"
proof (induction ps)
  case Nil
  show ?case by simp
next
  case (Cons a ps)
  then show ?case by (cases a) simp_all
qed

lemma length_concat_replicate: "length (concat (replicate r ps)) = r * length ps"
  by (induction r) simp_all

lemma nth_concat_replicate:
  "k < r * length ps \<Longrightarrow> concat (replicate r ps) ! k = ps ! (k mod length ps)"
proof (induction r arbitrary: k)
  case 0
  then show ?case by simp
next
  case (Suc r)
  show ?case
  proof (cases "k < length ps")
    case True
    then show ?thesis by (simp add: nth_append)
  next
    case False
    then have "k - length ps < r * length ps" using Suc.prems by simp
    then have "concat (replicate r ps) ! (k - length ps) = ps ! ((k - length ps) mod length ps)"
      by (rule Suc.IH)
    moreover have "(k - length ps) mod length ps = k mod length ps"
      using False by (simp add: le_mod_geq)
    ultimately show ?thesis using False by (simp add: nth_append)
  qed
qed

lemma repetitions_cover:
  "prefixes \<noteq> [] \<Longrightarrow>
   length (findall_w ucd text) < repetitions_needed ucd text prefixes * length prefixes"
proof -
  assume "prefixes \<noteq> []"
  then have pos: "0 < length prefixes" by simp
  have "length (findall_w ucd text) <
      (length (findall_w ucd text) div length prefixes + 1) * length prefixes"
    using pos by (metis Suc_eq_plus1 dividend_less_div_times mult.commute mult_Suc)
  then show ?thesis
    by (simp add: repetitions_needed_def length_ensure_tilde_prefix)
qed

lemma length_extended_prefixes:
  "length (extended_prefixes ucd text prefixes) =
     repetitions_needed ucd text prefixes * length prefixes"
  by (simp add: extended_prefixes_def length_concat_replicate length_ensure_tilde_prefix)



lemma pieces_render:
  "add_prefixes_to_letters ucd text prefixes = concat (map render (pieces ucd text prefixes))"
  by (simp add: add_prefixes_to_letters_def pieces_def re_sub_w_scan comp_def)

lemma pieces_original: "map original (pieces ucd text prefixes) = text"
  by (simp add: pieces_def original_scan comp_def)

lemma length_pieces: "length (pieces ucd text prefixes) = length text"
  by (simp add: pieces_def length_scan)

lemma extended_prefixes_cover:
  "prefixes \<noteq> [] \<Longrightarrow>
   length (findall_w ucd text) \<le> length (extended_prefixes ucd text prefixes)"
  using repetitions_cover [of prefixes ucd "text"]
  by (simp add: length_extended_prefixes)

lemma markers_consumed_take:
  "prefixes \<noteq> [] \<Longrightarrow>
   markers_consumed ucd text prefixes =
     take (length (findall_w ucd text)) (extended_prefixes ucd text prefixes)"
proof (cases "text = []")
  case True
  then show ?thesis by (simp add: markers_consumed_def pieces_def findall_w_def)
next
  case False
  assume "prefixes \<noteq> []"
  with False show ?thesis
    by (simp add: markers_consumed_def pieces_def scan_inserted extended_prefixes_cover)
qed

lemma take_extended_prefixes:
  assumes "prefixes \<noteq> []"
  shows "take (length (findall_w ucd text)) (extended_prefixes ucd text prefixes) =
     map (\<lambda>k. ensure_tilde_prefix prefixes ! (k mod length prefixes))
       [0..<length (findall_w ucd text)]"
proof (rule nth_equalityI)
  show "length (take (length (findall_w ucd text)) (extended_prefixes ucd text prefixes)) =
      length (map (\<lambda>k. ensure_tilde_prefix prefixes ! (k mod length prefixes))
        [0..<length (findall_w ucd text)])"
    using extended_prefixes_cover [OF assms, of ucd "text"] by simp
next
  fix i
  assume "i < length (take (length (findall_w ucd text)) (extended_prefixes ucd text prefixes))"
  then have i: "i < length (findall_w ucd text)" by simp
  with repetitions_cover [OF assms, of ucd "text"]
  have "i < repetitions_needed ucd text prefixes * length (ensure_tilde_prefix prefixes)"
    by (simp add: length_ensure_tilde_prefix)
  then have "extended_prefixes ucd text prefixes ! i =
      ensure_tilde_prefix prefixes ! (i mod length (ensure_tilde_prefix prefixes))"
    unfolding extended_prefixes_def by (rule nth_concat_replicate)
  with i show "take (length (findall_w ucd text)) (extended_prefixes ucd text prefixes) ! i =
      map (\<lambda>k. ensure_tilde_prefix prefixes ! (k mod length prefixes))
        [0..<length (findall_w ucd text)] ! i"
    by (simp add: length_ensure_tilde_prefix)
qed


lemma is_word_ascii: "c < 128 \<Longrightarrow> is_word ucd c = ascii_word c"
  by (auto simp: is_word_def str_isalnum_def latin1_isalnum_def ascii_word_def)

lemma ascii_word_is_word: "ascii_word c \<Longrightarrow> is_word ucd c"
  by (auto simp: is_word_def str_isalnum_def latin1_isalnum_def ascii_word_def underscore_def)

lemma pieces_prefixed:
  "prefixes \<noteq> [] \<Longrightarrow> map is_prefixed (pieces ucd text prefixes) = map (is_word ucd) text"
proof (cases "text = []")
  case True
  then show ?thesis by (simp add: pieces_def)
next
  case False
  assume "prefixes \<noteq> []"
  with False show ?thesis
    by (simp add: pieces_def scan_prefixed_iff extended_prefixes_cover)
qed









section \<open>Properties of the positional colourings\<close>

declare zip_longest2.simps [simp del] zip_longest4.simps [simp del]

lemma colour_loop_map: "colour_loop c pc p = pc @ map (paint c) p"
  by (induction p arbitrary: pc) (simp_all add: paint_def)

lemma paint_not_Nil: "paint c ch \<noteq> []"
  by (simp add: paint_def)

lemma join_loop2_append: "join_loop2 form rows = form @ join_loop2 [] rows"
proof (induction rows arbitrary: form)
  case Nil
  show ?case by simp
next
  case (Cons r rows)
  obtain f b where r: "r = (f, b)" by (cases r)
  have "join_loop2 form (r # rows) = join_loop2 (append_if (append_if form f) b) rows"
    by (simp add: r)
  also have "\<dots> = append_if (append_if form f) b @ join_loop2 [] rows"
    by (rule Cons.IH)
  also have "append_if (append_if form f) b = form @ append_if (append_if [] f) b"
    by (simp add: append_if_def split: option.splits)
  also have "(form @ append_if (append_if [] f) b) @ join_loop2 [] rows =
      form @ join_loop2 (append_if (append_if [] f) b) rows"
    using Cons.IH [of "append_if (append_if [] f) b"] by simp
  finally show ?case by (simp add: r)
qed

lemma zip_longest2_Nil: "zip_longest2 [] [] = []"
  by (simp add: zip_longest2.simps)

lemma zip_longest2_Cons_Nil: "zip_longest2 (x # xs) [] = (Some x, None) # zip_longest2 xs []"
  by (simp add: zip_longest2.simps [of "x # xs"] head_def)

lemma zip_longest2_Cons_Cons:
  "zip_longest2 (x # xs) (y # ys) = (Some x, Some y) # zip_longest2 xs ys"
  by (simp add: zip_longest2.simps [of "x # xs"] head_def)

lemma alternating_form_Nil: "alternating_form [] c1 c2 = []"
  by (simp add: alternating_form_def slice_from_def zip_longest2_Nil)

lemma alternating_form_single: "alternating_form [a] c1 c2 = [paint c1 a]"
  by (simp add: alternating_form_def slice_from_def colour_loop_map zip_longest2_Nil
      zip_longest2_Cons_Nil append_if_def paint_not_Nil)

lemma alternating_form_step:
  "alternating_form (a # b # xs) c1 c2 = paint c1 a # paint c2 b # alternating_form xs c1 c2"
proof -
  have "alternating_form (a # b # xs) c1 c2 =
      join_loop2 [paint c1 a, paint c2 b]
        (zip_longest2 (map (paint c1) (every 2 xs)) (map (paint c2) (every 2 (drop 1 xs))))"
    by (simp add: alternating_form_def slice_from_def colour_loop_map zip_longest2_Cons_Cons
        append_if_def paint_not_Nil)
  also have "\<dots> = [paint c1 a, paint c2 b] @ alternating_form xs c1 c2"
    by (subst join_loop2_append) (simp add: alternating_form_def slice_from_def colour_loop_map)
  finally show ?thesis by simp
qed

lemma alternating_form_positional:
  "even n \<Longrightarrow> alternating_form text c1 c2 = positional (\<lambda>i. if even i then c1 else c2) n text"
proof (induction "text" arbitrary: n rule: induct_list012)
  case 1
  show ?case by (simp add: alternating_form_Nil)
next
  case (2 x)
  then show ?case by (simp add: alternating_form_single)
next
  case (3 x y zs)
  from "3.prems" have "even (Suc (Suc n))" by simp
  then have "alternating_form zs c1 c2 =
      positional (\<lambda>i. if even i then c1 else c2) (Suc (Suc n)) zs"
    by (rule "3.IH"(1))
  with "3.prems" show ?case by (simp add: alternating_form_step)
qed

lemma length_positional: "length (positional colour n text) = length text"
  by (induction "text" arbitrary: n) simp_all

lemma nth_positional:
  "i < length text \<Longrightarrow> positional colour n text ! i = paint (colour (n + i)) (text ! i)"
proof (induction "text" arbitrary: n i)
  case Nil
  then show ?case by simp
next
  case (Cons ch cs)
  then show ?case by (cases i) simp_all
qed


lemma zip_longest4_Nil: "zip_longest4 [] [] [] [] = []"
  by (simp add: zip_longest4.simps)

lemma zip_longest4_1: "zip_longest4 [a] [] [] [] = [(Some a, None, None, None)]"
  by (simp add: zip_longest4.simps [of "[a]"] zip_longest4_Nil head_def)

lemma zip_longest4_2: "zip_longest4 [a] [b] [] [] = [(Some a, Some b, None, None)]"
  by (simp add: zip_longest4.simps [of "[a]"] zip_longest4_Nil head_def)

lemma zip_longest4_3: "zip_longest4 [a] [b] [c] [] = [(Some a, Some b, Some c, None)]"
  by (simp add: zip_longest4.simps [of "[a]"] zip_longest4_Nil head_def)

lemma zip_longest4_Cons:
  "zip_longest4 (a # as) (b # bs) (c # cs) (d # ds) =
     (Some a, Some b, Some c, Some d) # zip_longest4 as bs cs ds"
  by (simp add: zip_longest4.simps [of "a # as"] head_def)

lemma append_if_append: "append_if form v = form @ append_if [] v"
  by (simp add: append_if_def split: option.splits)

lemma join_loop4_append: "join_loop4 form rows = form @ join_loop4 [] rows"
proof (induction rows arbitrary: form)
  case Nil
  show ?case by simp
next
  case (Cons r rows)
  obtain a b c d where r: "r = (a, b, c, d)" by (cases r)
  let ?step = "\<lambda>form. append_if (append_if (append_if (append_if form a) b) c) d"
  have step: "?step form = form @ ?step []"
    by (simp add: append_if_def split: option.splits)
  have "join_loop4 form (r # rows) = ?step form @ join_loop4 [] rows"
    using Cons.IH [of "?step form"] by (simp add: r)
  also have "\<dots> = form @ (?step [] @ join_loop4 [] rows)"
    using step by simp
  also have "?step [] @ join_loop4 [] rows = join_loop4 [] (r # rows)"
    using Cons.IH [of "?step []"] by (simp add: r)
  finally show ?case .
qed

lemma triplealternate_form_Nil: "triplealternate_form [] c1 c2 c3 = []"
  by (simp add: triplealternate_form_def slice_from_def zip_longest4_Nil)

lemma triplealternate_form_1: "triplealternate_form [a] c1 c2 c3 = [paint c1 a]"
  by (simp add: triplealternate_form_def slice_from_def colour_loop_map zip_longest4_1
      append_if_def paint_not_Nil)

lemma triplealternate_form_2:
  "triplealternate_form [a, b] c1 c2 c3 = [paint c1 a, paint c2 b]"
  by (simp add: triplealternate_form_def slice_from_def colour_loop_map zip_longest4_2
      append_if_def paint_not_Nil)

lemma triplealternate_form_3:
  "triplealternate_form [a, b, c] c1 c2 c3 = [paint c1 a, paint c2 b, paint c3 c]"
  by (simp add: triplealternate_form_def slice_from_def colour_loop_map zip_longest4_3
      append_if_def paint_not_Nil)

lemma triplealternate_form_step:
  "triplealternate_form (a # b # c # d # xs) c1 c2 c3 =
     paint c1 a # paint c2 b # paint c3 c # paint c2 d # triplealternate_form xs c1 c2 c3"
proof -
  have "triplealternate_form (a # b # c # d # xs) c1 c2 c3 =
      join_loop4 [paint c1 a, paint c2 b, paint c3 c, paint c2 d]
        (zip_longest4 (map (paint c1) (every 4 xs)) (map (paint c2) (every 4 (drop 1 xs)))
           (map (paint c3) (every 4 (drop 2 xs))) (map (paint c2) (every 4 (drop 3 xs))))"
    by (simp add: triplealternate_form_def slice_from_def colour_loop_map zip_longest4_Cons
        append_if_def paint_not_Nil)
  also have "\<dots> = [paint c1 a, paint c2 b, paint c3 c, paint c2 d] @
      triplealternate_form xs c1 c2 c3"
    by (subst join_loop4_append)
      (simp add: triplealternate_form_def slice_from_def colour_loop_map)
  finally show ?thesis by simp
qed

lemma list_induct4:
  assumes "P []" and "\<And>a. P [a]" and "\<And>a b. P [a, b]" and "\<And>a b c. P [a, b, c]"
    and "\<And>a b c d xs. P xs \<Longrightarrow> P (a # b # c # d # xs)"
  shows "P xs"
proof -
  have "P xs \<and> (\<forall>a b. P (a # b # xs))"
    by (induction xs rule: induct_list012) (auto intro: assms)
  then show ?thesis by simp
qed

lemma cycle4_offsets:
  "n mod 4 = 0 \<Longrightarrow> cycle4 c1 c2 c3 n = c1 \<and> cycle4 c1 c2 c3 (Suc n) = c2 \<and>
     cycle4 c1 c2 c3 (Suc (Suc n)) = c3 \<and> cycle4 c1 c2 c3 (Suc (Suc (Suc n))) = c2 \<and>
     Suc (Suc (Suc (Suc n))) mod 4 = 0"
  unfolding cycle4_def by (simp add: mod_Suc)

lemma triplealternate_form_positional:
  "n mod 4 = 0 \<Longrightarrow> triplealternate_form text c1 c2 c3 = positional (cycle4 c1 c2 c3) n text"
proof (induction "text" arbitrary: n rule: list_induct4)
  case 1
  show ?case by (simp add: triplealternate_form_Nil)
next
  case (2 a)
  then show ?case using cycle4_offsets [of n c1 c2 c3] by (simp add: triplealternate_form_1)
next
  case (3 a b)
  then show ?case using cycle4_offsets [of n c1 c2 c3] by (simp add: triplealternate_form_2)
next
  case (4 a b c)
  then show ?case using cycle4_offsets [of n c1 c2 c3] by (simp add: triplealternate_form_3)
next
  case (5 a b c d xs)
  from "5.prems" have o: "cycle4 c1 c2 c3 n = c1" "cycle4 c1 c2 c3 (Suc n) = c2"
    "cycle4 c1 c2 c3 (Suc (Suc n)) = c3" "cycle4 c1 c2 c3 (Suc (Suc (Suc n))) = c2"
    "Suc (Suc (Suc (Suc n))) mod 4 = 0"
    using cycle4_offsets [of n c1 c2 c3] by simp_all
  from o(5) have "triplealternate_form xs c1 c2 c3 =
      positional (cycle4 c1 c2 c3) (Suc (Suc (Suc (Suc n)))) xs"
    by (rule "5.IH")
  with o show ?case by (simp add: triplealternate_form_step)
qed

lemma last_paint: "last (paint c ch) = ch"
  by (simp add: paint_def)

lemma last_positional: "map last (positional colour n text) = text"
  by (induction "text" arbitrary: n) (simp_all add: last_paint)

section \<open>The prefix cycler\<close>

text \<open>
  C1 (as amended). For the text \<^verbatim>\<open>Hello World!\<close> and the markers \<^verbatim>\<open>W1\<close>, \<^verbatim>\<open>W2\<close> the
  result is \<^verbatim>\<open>~W1H~W2e~W1l~W2l~W1o ~W2W~W1o~W2r~W1l~W2d!\<close>: the space and the exclamation mark
  are copied without a marker, and the cycle goes on across the space with \<^verbatim>\<open>~W2\<close> for
  the \<^verbatim>\<open>W\<close>.
\<close>

theorem hello_world_result:
  "add_prefixes_to_letters ucd (str ''Hello World!'') [str ''W1'', str ''W2''] =
     str ''~W1H~W2e~W1l~W2l~W1o ~W2W~W1o~W2r~W1l~W2d!''"
  by code_simp

text \<open>
  C1 as stated fails: the string \<^verbatim>\<open>~W1H~W2e~W1l~W2l~W1o~W2 ~W1W~W2o~W1r~W2l~W1d~W2!\<close> has a
  marker before the space and before the exclamation mark, which the function never
  inserts.
\<close>

theorem hello_world_counterexample:
  "\<forall>ucd. add_prefixes_to_letters ucd (str ''Hello World!'') [str ''W1'', str ''W2''] \<noteq>
     str ''~W1H~W2e~W1l~W2l~W1o~W2 ~W1W~W2o~W1r~W2l~W1d~W2!''"
proof (intro allI)
  fix ucd
  show "add_prefixes_to_letters ucd (str ''Hello World!'') [str ''W1'', str ''W2''] \<noteq>
     str ''~W1H~W2e~W1l~W2l~W1o~W2 ~W1W~W2o~W1r~W2l~W1d~W2!''"
    by code_simp
qed

text \<open>
  C2. The length of the result is the length of the text plus the lengths of the markers
  taken from the iterator. With a non-empty marker list one marker is taken for each
  word character, the \<open>k\<close>-th being the normalised marker at index \<open>k mod n\<close>; with an
  empty marker list none is taken. The result is the concatenation of one piece per
  character of the text, and the original characters of the pieces, in order, are the
  text.
\<close>

theorem add_prefixes_length_order:
  "length (add_prefixes_to_letters ucd text prefixes) =
     length text + sum_list (map length (markers_consumed ucd text prefixes)) \<and>
   (prefixes \<noteq> [] \<longrightarrow>
      markers_consumed ucd text prefixes =
        map (\<lambda>k. ensure_tilde_prefix prefixes ! (k mod length prefixes))
          [0..<length (findall_w ucd text)]) \<and>
   add_prefixes_to_letters ucd text prefixes = concat (map render (pieces ucd text prefixes)) \<and>
   map original (pieces ucd text prefixes) = text"
proof -
  have "length (add_prefixes_to_letters ucd text prefixes) =
      length text + sum_list (map length (markers_consumed ucd text prefixes))"
    by (simp add: pieces_render length_render length_pieces markers_consumed_def)
  moreover have "prefixes \<noteq> [] \<longrightarrow>
      markers_consumed ucd text prefixes =
        map (\<lambda>k. ensure_tilde_prefix prefixes ! (k mod length prefixes))
          [0..<length (findall_w ucd text)]"
    by (simp add: markers_consumed_take take_extended_prefixes)
  ultimately show ?thesis
    using pieces_render [of ucd "text" prefixes] pieces_original [of ucd "text" prefixes]
    by simp
qed

theorem add_prefixes_length_order_witness:
  "\<forall>ucd. length (add_prefixes_to_letters ucd (str ''a b c'') [str ''X'', str ''~YZ'']) = 12 \<and>
     markers_consumed ucd (str ''a b c'') [str ''X'', str ''~YZ''] =
       [str ''~X'', str ''~YZ'', str ''~X'']"
proof (intro allI)
  fix ucd
  let ?t = "str ''a b c''"
  let ?ps = "[str ''X'', str ''~YZ'']"
  have ne: "?ps \<noteq> []" by simp
  have m: "map (\<lambda>k. ensure_tilde_prefix ?ps ! (k mod length ?ps))
      [0..<length (findall_w ucd ?t)] = [str ''~X'', str ''~YZ'', str ''~X'']"
    by code_simp
  have s: "length ?t + sum_list (map length [str ''~X'', str ''~YZ'', str ''~X'']) = 12"
    by code_simp
  from add_prefixes_length_order [of ucd ?t ?ps] ne
  have "markers_consumed ucd ?t ?ps =
      map (\<lambda>k. ensure_tilde_prefix ?ps ! (k mod length ?ps)) [0..<length (findall_w ucd ?t)]"
    by blast
  with m have c: "markers_consumed ucd ?t ?ps = [str ''~X'', str ''~YZ'', str ''~X'']"
    by (simp only:)
  from add_prefixes_length_order [of ucd ?t ?ps]
  have "length (add_prefixes_to_letters ucd ?t ?ps) =
      length ?t + sum_list (map length (markers_consumed ucd ?t ?ps))"
    by blast
  with c s have "length (add_prefixes_to_letters ucd ?t ?ps) = 12"
    by (simp only:)
  with c show "length (add_prefixes_to_letters ucd ?t ?ps) = 12 \<and>
      markers_consumed ucd ?t ?ps = [str ''~X'', str ''~YZ'', str ''~X'']"
    by (simp only: simp_thms)
qed




text \<open>
  C4. The function is the identity on its text argument when the text is empty and when
  the marker list is empty.
\<close>

theorem add_prefixes_to_letters_identity:
  "add_prefixes_to_letters ucd [] prefixes = [] \<and>
   add_prefixes_to_letters ucd text [] = text"
  by (simp add: add_prefixes_to_letters_def)

text \<open>
  C5. With a non-empty marker list the repetition count \<open>R\<close> is at least one and
  \<open>R * len(markers)\<close> is at least the number \<open>N\<close> of word characters, so the iterator
  holds at least \<open>N\<close> markers and no piece of the scan comes from the
  \<^verbatim>\<open>StopIteration\<close> handler.
\<close>

theorem fallback_unreachable:
  "prefixes \<noteq> [] \<Longrightarrow>
     1 \<le> repetitions_needed ucd text prefixes \<and>
     length (findall_w ucd text) \<le> repetitions_needed ucd text prefixes * length prefixes \<and>
     length (findall_w ucd text) \<le> length (extended_prefixes ucd text prefixes) \<and>
     filter is_fallback (scan ucd (extended_prefixes ucd text prefixes) text) = [] \<and>
     filter is_fallback (pieces ucd text prefixes) = []"
proof -
  assume ne: "prefixes \<noteq> []"
  have r: "1 \<le> repetitions_needed ucd text prefixes"
    by (simp add: repetitions_needed_def)
  have n: "length (findall_w ucd text) \<le> repetitions_needed ucd text prefixes * length prefixes"
    using repetitions_cover [OF ne, of ucd "text"] by simp
  have e: "length (findall_w ucd text) \<le> length (extended_prefixes ucd text prefixes)"
    using ne by (rule extended_prefixes_cover)
  have s: "filter is_fallback (scan ucd (extended_prefixes ucd text prefixes) text) = []"
    using e by (rule scan_no_fallback)
  have p: "filter is_fallback (pieces ucd text prefixes) = []"
    using s by (simp add: pieces_def)
  from r n e s p show ?thesis by simp
qed

theorem fallback_unreachable_witness:
  "\<forall>ucd. repetitions_needed ucd (str ''A1_b'') [str ''X'', str ''Y''] = 3 \<and>
     length (findall_w ucd (str ''A1_b'')) = 4 \<and>
     length (extended_prefixes ucd (str ''A1_b'') [str ''X'', str ''Y'']) = 6 \<and>
     filter is_fallback (pieces ucd (str ''A1_b'') [str ''X'', str ''Y'']) = []"
proof (intro allI)
  fix ucd
  have ne: "[str ''X'', str ''Y''] \<noteq> []" by simp
  have r: "repetitions_needed ucd (str ''A1_b'') [str ''X'', str ''Y''] = 3"
    by code_simp
  have n: "length (findall_w ucd (str ''A1_b'')) = 4"
    by code_simp
  have e: "length (extended_prefixes ucd (str ''A1_b'') [str ''X'', str ''Y'']) = 6"
    by (simp add: length_extended_prefixes r)
  from fallback_unreachable [OF ne, of ucd "str ''A1_b''"] r n e
  show "repetitions_needed ucd (str ''A1_b'') [str ''X'', str ''Y''] = 3 \<and>
     length (findall_w ucd (str ''A1_b'')) = 4 \<and>
     length (extended_prefixes ucd (str ''A1_b'') [str ''X'', str ''Y'']) = 6 \<and>
     filter is_fallback (pieces ucd (str ''A1_b'') [str ''X'', str ''Y'']) = []"
    by simp
qed

text \<open>
  C6. \<^verbatim>\<open>ensure_tilde_prefix\<close> returns a list of the length of its argument; at every
  index the result is the marker itself when it starts with \<^verbatim>\<open>~\<close>, and \<^verbatim>\<open>~\<close> prepended
  to it otherwise (so order and duplicates are kept); the empty list gives the empty list.
\<close>

theorem ensure_tilde_prefix_pointwise:
  "length (ensure_tilde_prefix prefixes) = length prefixes \<and>
   (\<forall>i < length prefixes.
      ensure_tilde_prefix prefixes ! i =
        (if startswith (prefixes ! i) [tilde] then prefixes ! i else tilde # prefixes ! i)) \<and>
   ensure_tilde_prefix [] = []"
  by (simp add: ensure_tilde_prefix_map)

theorem ensure_tilde_prefix_pointwise_witness:
  "ensure_tilde_prefix [str ''~A'', str ''B'', str '''', str ''B''] =
     [str ''~A'', str ''~B'', str ''~'', str ''~B'']"
proof -
  let ?ps = "[str ''~A'', str ''B'', str '''', str ''B'']"
  have len: "length (ensure_tilde_prefix ?ps) = 4"
    using ensure_tilde_prefix_pointwise [of ?ps] by simp
  have nth: "\<forall>i < 4. ensure_tilde_prefix ?ps ! i =
      (if startswith (?ps ! i) [tilde] then ?ps ! i else tilde # ?ps ! i)"
    using ensure_tilde_prefix_pointwise [of ?ps] by simp
  have "ensure_tilde_prefix ?ps ! 0 = str ''~A''"
    using nth by (simp add: str_def tilde_def)
  moreover have "ensure_tilde_prefix ?ps ! 1 = str ''~B''"
    using nth by (simp add: str_def tilde_def)
  moreover have "ensure_tilde_prefix ?ps ! 2 = str ''~''"
    using nth by (simp add: str_def tilde_def)
  moreover have "ensure_tilde_prefix ?ps ! 3 = str ''~B''"
    using nth by (simp add: str_def tilde_def)
  ultimately show ?thesis
    using len by (simp add: list_eq_iff_nth_eq less_Suc_eq numeral_eq_Suc)
qed

text \<open>
  C7. Normalisation is idempotent: a second pass finds every marker starting with
  \<^verbatim>\<open>~\<close> and changes nothing.
\<close>

theorem ensure_tilde_prefix_idempotent:
  "ensure_tilde_prefix (ensure_tilde_prefix m) = ensure_tilde_prefix m"
  by (simp add: ensure_tilde_prefix_map)

text \<open>
  C8 (as amended). A character receives a prefix (the marker list being non-empty) exactly
  when \<^verbatim>\<open>\w\<close> matches it as a Unicode pattern, that is, when \<^verbatim>\<open>str.isalnum\<close> holds for it
  or it is the underscore. Among the ASCII characters these are exactly the letters, the
  digits and the underscore, and all of those are matched.
\<close>

theorem decoratable_unicode_word:
  "add_prefixes_to_letters ucd text prefixes = concat (map render (pieces ucd text prefixes)) \<and>
   (prefixes \<noteq> [] \<longrightarrow>
      map is_prefixed (pieces ucd text prefixes) = map (is_word ucd) text) \<and>
   (\<forall>c. is_word ucd c = (str_isalnum ucd c \<or> c = underscore)) \<and>
   (\<forall>c < 128. is_word ucd c = ascii_word c) \<and>
   (\<forall>c. ascii_word c \<longrightarrow> is_word ucd c)"
proof (intro conjI allI impI)
  show "add_prefixes_to_letters ucd text prefixes =
      concat (map render (pieces ucd text prefixes))"
    by (rule pieces_render)
next
  assume "prefixes \<noteq> []"
  then show "map is_prefixed (pieces ucd text prefixes) = map (is_word ucd) text"
    by (rule pieces_prefixed)
next
  fix c
  show "is_word ucd c = (str_isalnum ucd c \<or> c = underscore)"
    by (rule is_word_def)
next
  fix c :: codepoint
  assume "c < 128"
  then show "is_word ucd c = ascii_word c" by (rule is_word_ascii)
next
  fix c
  assume "ascii_word c"
  then show "is_word ucd c" by (rule ascii_word_is_word)
qed

theorem decoratable_unicode_word_witness:
  "\<forall>ucd. map is_prefixed (pieces ucd (str ''a-_ 7'' @ [233]) [str ''A'']) =
       [True, False, True, False, True, True] \<and>
     is_word ucd 97 \<and> ascii_word 97 \<and> \<not> is_word ucd 45 \<and> \<not> ascii_word 45"
proof (intro allI)
  fix ucd
  let ?t = "str ''a-_ 7'' @ [233]"
  let ?ps = "[str ''A'']"
  have ne: "?ps \<noteq> []" by simp
  have w: "map (is_word ucd) ?t = [True, False, True, False, True, True]"
    by code_simp
  from decoratable_unicode_word [of ucd ?t ?ps] ne
  have "map is_prefixed (pieces ucd ?t ?ps) = map (is_word ucd) ?t"
    by blast
  with w have p: "map is_prefixed (pieces ucd ?t ?ps) = [True, False, True, False, True, True]"
    by (simp only:)
  have a: "ascii_word 97" "\<not> ascii_word 45"
    by code_simp+
  from decoratable_unicode_word [of ucd ?t ?ps]
  have "\<forall>c < 128. is_word ucd c = ascii_word c" "\<forall>c. ascii_word c \<longrightarrow> is_word ucd c"
    by blast+
  with a have "is_word ucd 97" "\<not> is_word ucd 45"
    by simp_all
  with p a show "map is_prefixed (pieces ucd ?t ?ps) = [True, False, True, False, True, True] \<and>
     is_word ucd 97 \<and> ascii_word 97 \<and> \<not> is_word ucd 45 \<and> \<not> ascii_word 45"
    by (simp only: simp_thms)
qed

text \<open>
  C8 as stated fails: U+00E9 (\<^verbatim>\<open>e\<close> with acute accent) is not in \<^verbatim>\<open>[A-Za-z0-9_]\<close>, yet
  \<^verbatim>\<open>\w\<close> matches it and it receives a prefix.
\<close>

theorem unicode_letter_counterexample:
  "\<forall>ucd. \<not> ascii_word 233 \<and> is_word ucd 233 \<and>
     add_prefixes_to_letters ucd [233] [str ''A''] = str ''~A'' @ [233]"
proof (intro allI)
  fix ucd
  show "\<not> ascii_word 233 \<and> is_word ucd 233 \<and>
     add_prefixes_to_letters ucd [233] [str ''A''] = str ''~A'' @ [233]"
    by code_simp
qed

section \<open>The positional colourings\<close>

text \<open>
  C9 (as amended). In \<^verbatim>\<open>alternating\<close> the colour is chosen by the absolute index of the
  character, and every character counts, word character or not: the list joined at the
  end has one element per character of the text; the element at index \<open>i\<close> is the
  character with \<open>c1\<close> before it when \<open>i\<close> is even and \<open>c2\<close> when \<open>i\<close> is odd, unless
  the character is a space, which is emitted alone. The last characters of the elements,
  in order, are the text.
\<close>

theorem alternating_by_position:
  "length (alternating_form text c1 c2) = length text \<and>
   (\<forall>i < length text.
      alternating_form text c1 c2 ! i =
        (if text ! i = space then [text ! i]
         else (if even i then c1 else c2) @ [text ! i])) \<and>
   alternating text c1 c2 = concat (alternating_form text c1 c2) \<and>
   map last (alternating_form text c1 c2) = text"
proof -
  have f: "alternating_form text c1 c2 = positional (\<lambda>i. if even i then c1 else c2) 0 text"
    by (rule alternating_form_positional) simp
  show ?thesis
    by (simp add: f length_positional nth_positional last_positional paint_def alternating_def)
qed

theorem alternating_by_position_witness:
  "alternating_form (str ''a;b d'') (str ''~L7'') (str ''~G2'') ! 1 = str ''~G2;'' \<and>
   alternating_form (str ''a;b d'') (str ''~L7'') (str ''~G2'') ! 2 = str ''~L7b'' \<and>
   alternating_form (str ''a;b d'') (str ''~L7'') (str ''~G2'') ! 3 = str '' ''"
proof -
  let ?t = "str ''a;b d''"
  let ?f = "alternating_form ?t (str ''~L7'') (str ''~G2'')"
  from alternating_by_position [of ?t "str ''~L7''" "str ''~G2''"]
  have all: "\<forall>i < length ?t. ?f ! i =
      (if ?t ! i = space then [?t ! i]
       else (if even i then str ''~L7'' else str ''~G2'') @ [?t ! i])"
    by blast
  have l: "1 < length ?t" "2 < length ?t" "3 < length ?t"
    by code_simp+
  have r1: "(if ?t ! 1 = space then [?t ! 1]
       else (if even (1::nat) then str ''~L7'' else str ''~G2'') @ [?t ! 1]) = str ''~G2;''"
    by code_simp
  have r2: "(if ?t ! 2 = space then [?t ! 2]
       else (if even (2::nat) then str ''~L7'' else str ''~G2'') @ [?t ! 2]) = str ''~L7b''"
    by code_simp
  have r3: "(if ?t ! 3 = space then [?t ! 3]
       else (if even (3::nat) then str ''~L7'' else str ''~G2'') @ [?t ! 3]) = str '' ''"
    by code_simp
  from all l(1) have "?f ! 1 = (if ?t ! 1 = space then [?t ! 1]
       else (if even (1::nat) then str ''~L7'' else str ''~G2'') @ [?t ! 1])"
    by blast
  with r1 have a1: "?f ! 1 = str ''~G2;''" by (simp only:)
  from all l(2) have "?f ! 2 = (if ?t ! 2 = space then [?t ! 2]
       else (if even (2::nat) then str ''~L7'' else str ''~G2'') @ [?t ! 2])"
    by blast
  with r2 have a2: "?f ! 2 = str ''~L7b''" by (simp only:)
  from all l(3) have "?f ! 3 = (if ?t ! 3 = space then [?t ! 3]
       else (if even (3::nat) then str ''~L7'' else str ''~G2'') @ [?t ! 3])"
    by blast
  with r3 have a3: "?f ! 3 = str '' ''" by (simp only:)
  from a1 a2 a3 show ?thesis by (simp only: simp_thms)
qed

text \<open>
  C9 as stated fails: the space at index 1 of \<^verbatim>\<open>a b\<close> is emitted without \<open>c2\<close>.
\<close>

theorem alternating_space_counterexample:
  "alternating (str ''a b'') (str ''~L7'') (str ''~G2'') = str ''~L7a ~L7b'' \<and>
   alternating (str ''a b'') (str ''~L7'') (str ''~G2'') \<noteq> str ''~L7a~G2 ~L7b'' \<and>
   alternating_form (str ''a b'') (str ''~L7'') (str ''~G2'') ! 1 = str '' ''"
  by code_simp

text \<open>
  C10. In \<^verbatim>\<open>triplealternate\<close> the element at index \<open>i\<close> is the character with \<open>c1\<close>,
  \<open>c2\<close>, \<open>c3\<close>, \<open>c2\<close> before it for \<open>i mod 4\<close> equal to 0, 1, 2, 3: the indices congruent
  to 3 get the second colour and \<open>c3\<close> is chosen only at the indices congruent to 2. A
  space is emitted alone at every index.
\<close>

theorem triplealternate_by_position:
  "length (triplealternate_form text c1 c2 c3) = length text \<and>
   (\<forall>i < length text.
      triplealternate_form text c1 c2 c3 ! i =
        (if text ! i = space then [text ! i]
         else (if i mod 4 = 0 then c1 else if i mod 4 = 1 then c2
               else if i mod 4 = 2 then c3 else c2) @ [text ! i])) \<and>
   triplealternate text c1 c2 c3 = concat (triplealternate_form text c1 c2 c3)"
proof -
  have f: "triplealternate_form text c1 c2 c3 = positional (cycle4 c1 c2 c3) 0 text"
    by (rule triplealternate_form_positional) simp
  show ?thesis
    by (simp add: f length_positional nth_positional paint_def triplealternate_def cycle4_def)
qed

theorem triplealternate_by_position_witness:
  "triplealternate_form (str ''abcd fgh'') (str ''~W9'') (str ''~W8'') (str ''~W7'') ! 2 = str ''~W7c'' \<and>
   triplealternate_form (str ''abcd fgh'') (str ''~W9'') (str ''~W8'') (str ''~W7'') ! 3 = str ''~W8d'' \<and>
   triplealternate_form (str ''abcd fgh'') (str ''~W9'') (str ''~W8'') (str ''~W7'') ! 4 = str '' '' \<and>
   triplealternate_form (str ''abcd fgh'') (str ''~W9'') (str ''~W8'') (str ''~W7'') ! 7 = str ''~W8h''"
proof -
  let ?t = "str ''abcd fgh''"
  let ?c1 = "str ''~W9''" and ?c2 = "str ''~W8''" and ?c3 = "str ''~W7''"
  let ?f = "triplealternate_form ?t ?c1 ?c2 ?c3"
  let ?r = "\<lambda>i::nat. if ?t ! i = space then [?t ! i]
       else (if i mod 4 = 0 then ?c1 else if i mod 4 = 1 then ?c2
             else if i mod 4 = 2 then ?c3 else ?c2) @ [?t ! i]"
  from triplealternate_by_position [of ?t ?c1 ?c2 ?c3]
  have all: "\<forall>i < length ?t. ?f ! i = ?r i"
    by blast
  have l: "2 < length ?t" "3 < length ?t" "4 < length ?t" "7 < length ?t"
    by code_simp+
  have r: "?r 2 = str ''~W7c''" "?r 3 = str ''~W8d''" "?r 4 = str '' ''" "?r 7 = str ''~W8h''"
    by code_simp+
  from all l(1) have "?f ! 2 = ?r 2" by blast
  with r(1) have a2: "?f ! 2 = str ''~W7c''" by (simp only:)
  from all l(2) have "?f ! 3 = ?r 3" by blast
  with r(2) have a3: "?f ! 3 = str ''~W8d''" by (simp only:)
  from all l(3) have "?f ! 4 = ?r 4" by blast
  with r(3) have a4: "?f ! 4 = str '' ''" by (simp only:)
  from all l(4) have "?f ! 7 = ?r 7" by blast
  with r(4) have a7: "?f ! 7 = str ''~W8h''" by (simp only:)
  from a2 a3 a4 a7 show ?thesis by (simp only: simp_thms)
qed

end
